theory Spec2Isabelle
  imports Complex_Main
begin

section \<open>Data model of \<open>src/trufflehog.py\<close>\<close>

text \<open>
  A Python \<open>str\<close> is a sequence of code points and \<open>len\<close> counts code points, so a string
  is a list of code points here; \<open>ascii\<close> embeds an ASCII literal.
\<close>

type_synonym pystr = "nat list"

definition ascii :: "string \<Rightarrow> pystr" where
  "ascii s = map of_char s"

text \<open>
  What \<open>json.loads\<close> returns. A \<open>dict\<close> is an association list read through
  \<open>map_of\<close>. \<open>JFloat\<close> stands for the finite floats.
\<close>

datatype json =
    JNull
  | JBool bool
  | JInt int
  | JFloat real
  | JStr pystr
  | JArr "json list"
  | JObj "(pystr \<times> json) list"

text \<open>The exceptions the program can meet; the payload is \<open>str(e)\<close>.\<close>

datatype error =
    ValueError pystr
  | FileNotFoundError pystr
  | AttributeError pystr
  | IndexError pystr


datatype 'a outcome = Returned 'a | Raised error | OutOfFuel

text \<open>What \<open>subprocess.run(..., check=True, timeout=3600)\<close> can end in.\<close>

datatype proc_result =
    Completed pystr
  | CalledProcessError "pystr option"
  | TimeoutExpired

subsection \<open>Configuration (lines 11-27)\<close>

definition BASE_DIR :: pystr where
  "BASE_DIR = ascii ''/root/Trufflehog''"

definition DOMAINS_FILE :: pystr where
  "DOMAINS_FILE = BASE_DIR @ ascii ''/Domains.txt''"

definition PATS_FILE :: pystr where
  "PATS_FILE = BASE_DIR @ ascii ''/PAT.txt''"

definition MAX_RETRIES_PER_DOMAIN :: nat where
  "MAX_RETRIES_PER_DOMAIN = 3"

definition PAT_COOLDOWN :: real where
  "PAT_COOLDOWN = 300"



subsection \<open>The world outside the process and the scanner object\<close>

text \<open>
  \<open>world\<close> is everything the program reads or writes outside its own object: the three
  list files (a file is the list of its lines, \<open>None\<close> when it does not exist), the
  per-target result files (the list that \<open>json.dump\<close> wrote), the wall clock, the texts
  posted to the Telegram endpoint (every attempted post, delivered or not) and the engine
  invocations made so far (target, credential). Time passes in \<open>time.sleep\<close> and while the
  engine runs. Reading an existing file and writing a file are taken to succeed.
\<close>

record world =
  pats_file :: "pystr list option"
  domains_file :: "pystr list option"
  completed_file :: "pystr list option"
  results_files :: "pystr \<rightharpoonup> json list"
  verified_files :: "pystr \<rightharpoonup> json list"
  clock :: real
  telegram :: "pystr list"
  invocations :: "(pystr \<times> pystr) list"

text \<open>The fields of \<open>GitHubScanner\<close> (lines 40-44), with the world it acts on.\<close>

record scanner =
  pats :: "pystr list"
  completed_domains :: "pystr set"
  rate_limited_pats :: "pystr \<rightharpoonup> real"
  current_pat_index :: nat
  env :: world

text \<open>
  What the program takes from outside its own code: the detection engine (the result of
  the n-th invocation for a target and a credential, and the seconds it ran),
  \<open>json.loads\<close> on one line (\<open>None\<close> for \<open>JSONDecodeError\<close>), \<open>str\<close> on a value that
  is not a string (inside an f-string), and \<open>strftime('%H:%M')\<close>.
\<close>

record externals =
  engine :: "nat \<Rightarrow> pystr \<Rightarrow> pystr \<Rightarrow> proc_result \<times> real"
  json_loads :: "pystr \<Rightarrow> json option"
  py_str :: "json \<Rightarrow> pystr"
  strftime_HM :: "real \<Rightarrow> pystr"

definition sleep :: "real \<Rightarrow> scanner \<Rightarrow> scanner" where
  "sleep d s = s\<lparr>env := (env s)\<lparr>clock := clock (env s) + d\<rparr>\<rparr>"


section \<open>Credential pool\<close>

text \<open>
  \<open>_get_available_pat\<close> (lines 82-91). The \<open>for\<close> loop over \<open>range(len(self.pats))\<close> is
  the recursion on the number of iterations left; \<open>self.pats[i]\<close> out of range raises.
  \<open>cooling_down\<close> is the test of line 87.
\<close>

definition cooling_down :: "(pystr \<rightharpoonup> real) \<Rightarrow> pystr \<Rightarrow> real \<Rightarrow> bool" where
  "cooling_down rl pat now = (case rl pat of Some t \<Rightarrow> t > now | None \<Rightarrow> False)"

fun get_available_pat_loop ::
  "nat \<Rightarrow> real \<Rightarrow> scanner \<Rightarrow> pystr option outcome \<times> scanner" where
  "get_available_pat_loop 0 now s = (Returned None, s)"
| "get_available_pat_loop (Suc n) now s =
     (if current_pat_index s < length (pats s) then
        (let pat = pats s ! current_pat_index s;
             s1 = s\<lparr>current_pat_index := (current_pat_index s + 1) mod length (pats s)\<rparr>
         in if cooling_down (rate_limited_pats s1) pat now
            then get_available_pat_loop n now s1
            else (Returned (Some pat),
                  s1\<lparr>rate_limited_pats := (rate_limited_pats s1)(pat := None)\<rparr>))
      else (Raised (IndexError (ascii ''list index out of range'')), s))"

definition get_available_pat :: "scanner \<Rightarrow> pystr option outcome \<times> scanner" where
  "get_available_pat s = get_available_pat_loop (length (pats s)) (clock (env s)) s"

section \<open>Scan invoker\<close>

text \<open>\<open>needle in hay\<close> on strings.\<close>

fun starts_with :: "pystr \<Rightarrow> pystr \<Rightarrow> bool" where
  "starts_with [] hay = True"
| "starts_with (c # cs) [] = False"
| "starts_with (c # cs) (h # hs) = (c = h \<and> starts_with cs hs)"

fun contains :: "pystr \<Rightarrow> pystr \<Rightarrow> bool" where
  "contains needle [] = (needle = [])"
| "contains needle (h # hs) = (starts_with needle (h # hs) \<or> contains needle hs)"

text \<open>
  \<open>_run_trufflehog\<close> (lines 142-165). The engine is assumed to start; its call is
  recorded in \<open>invocations\<close> and advances the clock by the time it ran. The second
  component of the result is \<open>None\<close> when \<open>e.stderr\<close> is.
\<close>

definition run_trufflehog ::
  "externals \<Rightarrow> pystr \<Rightarrow> pystr \<Rightarrow> scanner \<Rightarrow> (bool \<times> pystr option) \<times> scanner" where
  "run_trufflehog X domain pat s =
     (let (r, dt) = engine X (length (invocations (env s))) domain pat;
          s1 = s\<lparr>env := (env s)\<lparr>invocations := invocations (env s) @ [(domain, pat)],
                                clock := clock (env s) + dt\<rparr>\<rparr>
      in case r of
           Completed out \<Rightarrow> ((True, Some out), s1)
         | CalledProcessError err \<Rightarrow>
             if contains (ascii ''403'') (case err of None \<Rightarrow> [] | Some e \<Rightarrow> e)
             then ((False, Some (ascii ''rate_limit'')),
                   s1\<lparr>rate_limited_pats :=
                        (rate_limited_pats s1)(pat \<mapsto> clock (env s1) + PAT_COOLDOWN)\<rparr>)
             else ((False, err), s1)
         | TimeoutExpired \<Rightarrow> ((False, Some (ascii ''timeout'')), s1))"

section \<open>Findings\<close>

text \<open>Truth value of a JSON value (\<open>if not x\<close>), and \<open>isinstance(x, dict)\<close>.\<close>

fun truthy :: "json \<Rightarrow> bool" where
  "truthy JNull = False"
| "truthy (JBool b) = b"
| "truthy (JInt i) = (i \<noteq> 0)"
| "truthy (JFloat r) = (r \<noteq> 0)"
| "truthy (JStr s) = (s \<noteq> [])"
| "truthy (JArr xs) = (xs \<noteq> [])"
| "truthy (JObj kvs) = (kvs \<noteq> [])"

fun is_dict :: "json \<Rightarrow> bool" where
  "is_dict (JObj kvs) = True"
| "is_dict v = False"

fun type_name :: "json \<Rightarrow> pystr" where
  "type_name JNull = ascii ''NoneType''"
| "type_name (JBool b) = ascii ''bool''"
| "type_name (JInt i) = ascii ''int''"
| "type_name (JFloat r) = ascii ''float''"
| "type_name (JStr s) = ascii ''str''"
| "type_name (JArr xs) = ascii ''list''"
| "type_name (JObj kvs) = ascii ''dict''"

text \<open>\<open>v.get(key, default)\<close>: only a \<open>dict\<close> has the method.\<close>

fun dict_get :: "json \<Rightarrow> pystr \<Rightarrow> json \<Rightarrow> error + json" where
  "dict_get (JObj kvs) key dflt =
     Inr (case map_of kvs key of Some v \<Rightarrow> v | None \<Rightarrow> dflt)"
| "dict_get v key dflt =
     Inl (AttributeError (ascii [CHR 0x27] @ type_name v @ ascii [CHR 0x27]
            @ ascii '' object has no attribute '' @ ascii [CHR 0x27] @ ascii ''get''
            @ ascii [CHR 0x27]))"

text \<open>
  \<open>x.get("SourceMetadata", {}).get("Data", {}).get("Github", {})\<close> (lines 111 and 218).
\<close>

definition github_data :: "json \<Rightarrow> error + json" where
  "github_data x =
     (case dict_get x (ascii ''SourceMetadata'') (JObj []) of
        Inl e \<Rightarrow> Inl e
      | Inr m \<Rightarrow>
          (case dict_get m (ascii ''Data'') (JObj []) of
             Inl e \<Rightarrow> Inl e
           | Inr d \<Rightarrow> dict_get d (ascii ''Github'') (JObj [])))"

section \<open>Notifier\<close>

text \<open>A value inside an f-string: a string as it is, anything else through \<open>str\<close>.\<close>

fun fmt :: "externals \<Rightarrow> json \<Rightarrow> pystr" where
  "fmt X (JStr s) = s"
| "fmt X v = py_str X v"

definition alert_header :: "pystr \<Rightarrow> pystr" where
  "alert_header domain =
     [128680] @ ascii '' *Verified secrets found in '' @ domain @ ascii ''*:'' @ [10]"

definition continued_header :: "pystr \<Rightarrow> pystr" where
  "continued_header domain = ascii ''*Continued findings for '' @ domain @ ascii '':*'' @ [10]"

text \<open>The text appended for one finding (lines 121-125).\<close>

definition block :: "externals \<Rightarrow> json \<Rightarrow> json \<Rightarrow> json \<Rightarrow> pystr" where
  "block X detector_name file_path commit_url =
     [10, 128269] @ ascii '' *'' @ fmt X detector_name @ ascii ''*'' @ [10]
     @ [128196] @ ascii '' `'' @ fmt X file_path @ ascii ''`'' @ [10]
     @ [128279] @ ascii '' [View Commit]('' @ fmt X commit_url @ ascii '')'' @ [10]"

text \<open>
  What one finding contributes (lines 106-117): \<open>Inl\<close> when the \<open>try\<close> body raises,
  \<open>Inr None\<close> when the finding is skipped for its missing commit URL, \<open>Inr (Some b)\<close>
  with its block otherwise.
\<close>

definition secret_block :: "externals \<Rightarrow> json \<Rightarrow> error + pystr option" where
  "secret_block X secret =
     (case dict_get secret (ascii ''DetectorName'') (JStr (ascii ''Unknown Secret'')) of
        Inl e \<Rightarrow> Inl e
      | Inr detector_name \<Rightarrow>
          (case github_data secret of
             Inl e \<Rightarrow> Inl e
           | Inr gh_data \<Rightarrow>
               (case dict_get gh_data (ascii ''file'') (JStr (ascii ''Unknown file'')) of
                  Inl e \<Rightarrow> Inl e
                | Inr file_path \<Rightarrow>
                    (case dict_get gh_data (ascii ''link'') (JStr []) of
                       Inl e \<Rightarrow> Inl e
                     | Inr commit_url \<Rightarrow>
                         if \<not> truthy commit_url then Inr None
                         else Inr (Some (block X detector_name file_path commit_url))))))"

text \<open>
  One iteration of the loop of \<open>_send_telegram_alert\<close> (lines 102-135) on the loop state
  \<open>(message, count, sent)\<close>, \<open>sent\<close> being the texts handed to
  \<open>_send_telegram_message\<close> so far.
\<close>

definition alert_step ::
  "externals \<Rightarrow> pystr \<Rightarrow> pystr \<times> nat \<times> pystr list \<Rightarrow> json \<Rightarrow> pystr \<times> nat \<times> pystr list" where
  "alert_step X domain st secret =
     (case st of (message, count, sent) \<Rightarrow>
        if \<not> is_dict secret then (message, count, sent)
        else
          (case secret_block X secret of
             Inl e \<Rightarrow> (message, count, sent)
           | Inr None \<Rightarrow> (message, count, sent)
           | Inr (Some b) \<Rightarrow>
               (let count1 = count + 1; message1 = message @ b
                in if length message1 > 3000
                   then (continued_header domain, 0, sent @ [message1])
                   else (message1, count1, sent))))"

definition alert_loop ::
  "externals \<Rightarrow> pystr \<Rightarrow> json list \<Rightarrow> pystr \<times> nat \<times> pystr list" where
  "alert_loop X domain secrets = foldl (alert_step X domain) (alert_header domain, 0, []) secrets"

text \<open>\<open>_send_telegram_alert\<close> (lines 93-140): the texts it sends, in order.\<close>

definition alert_messages :: "externals \<Rightarrow> pystr \<Rightarrow> json list \<Rightarrow> pystr list" where
  "alert_messages X domain verified_secrets =
     (if verified_secrets = [] then []
      else
        (case alert_loop X domain verified_secrets of (message, count, sent) \<Rightarrow>
           if count > 0 then sent @ [message] else sent))"

definition send_telegram_alert :: "externals \<Rightarrow> pystr \<Rightarrow> json list \<Rightarrow> world \<Rightarrow> world" where
  "send_telegram_alert X domain verified_secrets w =
     w\<lparr>telegram := telegram w @ alert_messages X domain verified_secrets\<rparr>"

section \<open>Finding processor and domain orchestrator\<close>

text \<open>\<open>str.splitlines()\<close>: the line boundaries of Python, \<open>\r\n\<close> counting as one.\<close>

definition line_boundary :: "nat \<Rightarrow> bool" where
  "line_boundary c =
     (c = 10 \<or> c = 11 \<or> c = 12 \<or> c = 13 \<or> c = 28 \<or> c = 29 \<or> c = 30 \<or> c = 133
      \<or> c = 8232 \<or> c = 8233)"

fun splitlines_from :: "pystr \<Rightarrow> pystr \<Rightarrow> pystr list" where
  "splitlines_from cur [] = (if cur = [] then [] else [cur])"
| "splitlines_from cur (c # cs) =
     (if c = 13 then
        (case cs of
           [] \<Rightarrow> [cur]
         | d # ds \<Rightarrow>
             if d = 10 then cur # splitlines_from [] ds else cur # splitlines_from [] cs)
      else if line_boundary c then cur # splitlines_from [] cs
      else splitlines_from (cur @ [c]) cs)"

definition splitlines :: "pystr \<Rightarrow> pystr list" where
  "splitlines text = splitlines_from [] text"

text \<open>
  The parsing loop (lines 186-201) on \<open>(findings, valid_entries, invalid_entries)\<close>.
\<close>

fun parse_lines ::
  "externals \<Rightarrow> pystr list \<Rightarrow> json list \<times> nat \<times> nat \<Rightarrow> json list \<times> nat \<times> nat" where
  "parse_lines X [] acc = acc"
| "parse_lines X (line # rest) (findings, valid_entries, invalid_entries) =
     (case json_loads X line of
        None \<Rightarrow> parse_lines X rest (findings, valid_entries, invalid_entries + 1)
      | Some data \<Rightarrow>
          if is_dict data
          then parse_lines X rest (findings @ [data], valid_entries + 1, invalid_entries)
          else parse_lines X rest (findings, valid_entries, invalid_entries + 1))"

text \<open>
  The verified filter (lines 210-222) with its accumulator \<open>verified\<close>. The \<open>.get\<close>
  chain of line 218 is outside any \<open>try\<close>: its \<open>AttributeError\<close> leaves \<open>scan_domain\<close>.
\<close>

fun verified_filter :: "json list \<Rightarrow> json list \<Rightarrow> error + json list" where
  "verified_filter [] verified = Inr verified"
| "verified_filter (entry # rest) verified =
     (if \<not> is_dict entry then verified_filter rest verified
      else
        (case dict_get entry (ascii ''Verified'') JNull of
           Inl e \<Rightarrow> Inl e
         | Inr v \<Rightarrow>
             if \<not> truthy v then verified_filter rest verified
             else
               (case github_data entry of
                  Inl e \<Rightarrow> Inl e
                | Inr gh_data \<Rightarrow>
                    if \<not> is_dict gh_data then verified_filter rest verified
                    else verified_filter rest (verified @ [entry]))))"

text \<open>
  \<open>_mark_domain_completed\<close> (lines 77-80); opening the ledger for append creates it.
\<close>

definition mark_domain_completed :: "pystr \<Rightarrow> scanner \<Rightarrow> scanner" where
  "mark_domain_completed domain s =
     s\<lparr>completed_domains := insert domain (completed_domains s),
       env := (env s)\<lparr>completed_file :=
                Some ((case completed_file (env s) of None \<Rightarrow> [] | Some ls \<Rightarrow> ls)
                      @ [domain @ [10]])\<rparr>\<rparr>"

text \<open>
  The success branch of \<open>scan_domain\<close> (lines 185-233). \<open>findings\<close> is still the empty
  list of line 172 when the branch is entered, since the branch returns.
\<close>

definition on_success :: "externals \<Rightarrow> pystr \<Rightarrow> pystr \<Rightarrow> scanner \<Rightarrow> bool outcome \<times> scanner" where
  "on_success X domain output s =
     (case parse_lines X (splitlines output) ([], 0, 0) of
        (findings, valid_entries, invalid_entries) \<Rightarrow>
          (let s1 = s\<lparr>env := (env s)\<lparr>results_files :=
                           (results_files (env s))(domain \<mapsto> findings)\<rparr>\<rparr>
           in case verified_filter findings [] of
                Inl e \<Rightarrow> (Raised e, s1)
              | Inr verified \<Rightarrow>
                  (let s2 =
                     (if verified \<noteq> []
                      then s1\<lparr>env := send_telegram_alert X domain verified
                                ((env s1)\<lparr>verified_files :=
                                    (verified_files (env s1))(domain \<mapsto> verified)\<rparr>)\<rparr>
                      else s1)
                   in (Returned True, mark_domain_completed domain s2))))"

text \<open>
  The \<open>while\<close> loop of \<open>scan_domain\<close> (lines 174-244) with its counter \<open>attempts\<close>. The
  loop need not end (no credential may ever be served), so it runs on fuel, one unit an
  iteration; \<open>OutOfFuel\<close> hands back the state reached. \<open>not pat\<close> holds for \<open>None\<close> and
  for the empty string.
\<close>

fun scan_domain_loop ::
  "nat \<Rightarrow> externals \<Rightarrow> pystr \<Rightarrow> nat \<Rightarrow> scanner \<Rightarrow> bool outcome \<times> scanner" where
  "scan_domain_loop 0 X domain attempts s = (OutOfFuel, s)"
| "scan_domain_loop (Suc fuel) X domain attempts s =
     (if attempts < MAX_RETRIES_PER_DOMAIN then
        (case get_available_pat s of
           (Raised e, s1) \<Rightarrow> (Raised e, s1)
         | (OutOfFuel, s1) \<Rightarrow> (OutOfFuel, s1)
         | (Returned None, s1) \<Rightarrow> scan_domain_loop fuel X domain attempts (sleep PAT_COOLDOWN s1)
         | (Returned (Some pat), s1) \<Rightarrow>
             if pat = [] then scan_domain_loop fuel X domain attempts (sleep PAT_COOLDOWN s1)
             else
               (case run_trufflehog X domain pat s1 of
                  ((success, output), s2) \<Rightarrow>
                    if success then
                      (case output of
                         Some out \<Rightarrow> on_success X domain out s2
                       | None \<Rightarrow>
                           (Raised (AttributeError
                              (ascii [CHR 0x27] @ ascii ''NoneType'' @ ascii [CHR 0x27]
                               @ ascii '' object has no attribute '' @ ascii [CHR 0x27]
                               @ ascii ''splitlines'' @ ascii [CHR 0x27])), s2))
                    else if output = Some (ascii ''rate_limit'')
                    then scan_domain_loop fuel X domain (attempts + 1) (sleep 2 s2)
                    else (Returned False, s2)))
      else (Returned False, s))"

definition scan_domain :: "nat \<Rightarrow> externals \<Rightarrow> pystr \<Rightarrow> scanner \<Rightarrow> bool outcome \<times> scanner" where
  "scan_domain fuel X domain s = scan_domain_loop fuel X domain 0 s"

section \<open>Cycle scheduler and start-up\<close>

text \<open>\<open>str.strip()\<close> removes the white space of \<open>str.isspace\<close> at both ends.\<close>

definition py_isspace :: "nat \<Rightarrow> bool" where
  "py_isspace c =
     ((9 \<le> c \<and> c \<le> 13) \<or> (28 \<le> c \<and> c \<le> 32) \<or> c = 133 \<or> c = 160 \<or> c = 5760
      \<or> (8192 \<le> c \<and> c \<le> 8202) \<or> c = 8232 \<or> c = 8233 \<or> c = 8239 \<or> c = 8287
      \<or> c = 12288)"

definition strip :: "pystr \<Rightarrow> pystr" where
  "strip text = rev (dropWhile py_isspace (rev (dropWhile py_isspace text)))"

text \<open>\<open>[line.strip() for line in f if line.strip()]\<close> (lines 66, 75 and 250).\<close>

definition stripped_lines :: "pystr list \<Rightarrow> pystr list" where
  "stripped_lines ls = filter (\<lambda>l. l \<noteq> []) (map strip ls)"

text \<open>\<open>_load_pats\<close> (lines 64-69); \<open>open\<close> raises when the file is missing.\<close>

definition load_pats :: "world \<Rightarrow> error + pystr list" where
  "load_pats w =
     (case pats_file w of
        None \<Rightarrow>
          Inl (FileNotFoundError
                 (ascii ''[Errno 2] No such file or directory: '' @ ascii [CHR 0x27]
                  @ PATS_FILE @ ascii [CHR 0x27]))
      | Some ls \<Rightarrow>
          (let ps = stripped_lines ls
           in if ps = [] then Inl (ValueError (ascii ''No PATs found.'')) else Inr ps))"

text \<open>\<open>_load_completed_domains\<close> (lines 71-75).\<close>

definition load_completed_domains :: "world \<Rightarrow> pystr set" where
  "load_completed_domains w =
     (case completed_file w of None \<Rightarrow> {} | Some ls \<Rightarrow> set (stripped_lines ls))"

text \<open>\<open>__init__\<close> (lines 40-44).\<close>

definition init :: "world \<Rightarrow> error + scanner" where
  "init w =
     (case load_pats w of
        Inl e \<Rightarrow> Inl e
      | Inr ps \<Rightarrow>
          Inr \<lparr>pats = ps, completed_domains = load_completed_domains w,
               rate_limited_pats = Map.empty, current_pat_index = 0, env = w\<rparr>)"

text \<open>The loop of \<open>run\<close> over the targets (lines 253-259).\<close>

fun run_loop :: "nat \<Rightarrow> externals \<Rightarrow> pystr list \<Rightarrow> scanner \<Rightarrow> unit outcome \<times> scanner" where
  "run_loop fuel X [] s = (Returned (), s)"
| "run_loop fuel X (domain # rest) s =
     (if domain \<in> completed_domains s then run_loop fuel X rest s
      else
        (case scan_domain fuel X domain s of
           (Returned b, s1) \<Rightarrow> run_loop fuel X rest (sleep 5 s1)
         | (Raised e, s1) \<Rightarrow> (Raised e, s1)
         | (OutOfFuel, s1) \<Rightarrow> (OutOfFuel, s1)))"

text \<open>\<open>run\<close> (lines 246-259).\<close>

definition run :: "nat \<Rightarrow> externals \<Rightarrow> scanner \<Rightarrow> unit outcome \<times> scanner" where
  "run fuel X s =
     (case domains_file (env s) of
        None \<Rightarrow> (Raised (FileNotFoundError (DOMAINS_FILE @ ascii '' not found'')), s)
      | Some ls \<Rightarrow> run_loop fuel X (stripped_lines ls) s)"






section \<open>Relations and invariants used in the statements\<close>

text \<open>
  Consecutive calls of \<open>_get_available_pat\<close>, the i-th at clock reading \<open>ts ! i\<close>; the
  results in order and the state after the last call.
\<close>

fun consecutive_calls :: "real list \<Rightarrow> scanner \<Rightarrow> pystr option outcome list \<times> scanner" where
  "consecutive_calls [] s = ([], s)"
| "consecutive_calls (t # ts) s =
     (case get_available_pat (s\<lparr>env := (env s)\<lparr>clock := t\<rparr>\<rparr>) of
        (r, s1) \<Rightarrow> (case consecutive_calls ts s1 of (rs, s2) \<Rightarrow> (r # rs, s2)))"

text \<open>
  Nothing was persisted between two states: result files, verified files, completed
  ledger and completed set are the same.
\<close>

definition unchanged_results :: "scanner \<Rightarrow> scanner \<Rightarrow> bool" where
  "unchanged_results s s' =
     (results_files (env s') = results_files (env s)
      \<and> verified_files (env s') = verified_files (env s)
      \<and> completed_file (env s') = completed_file (env s)
      \<and> completed_domains s' = completed_domains s)"

text \<open>
  Between two states the engine was invoked for one target only (\<open>scans_only\<close>), or for
  no target of a given set (\<open>skips\<close>); in both the completed set can only have grown.
\<close>

definition scans_only :: "pystr \<Rightarrow> scanner \<Rightarrow> scanner \<Rightarrow> bool" where
  "scans_only domain s s' =
     ((\<exists>new. invocations (env s') = invocations (env s) @ new \<and> (\<forall>x\<in>set new. fst x = domain))
      \<and> completed_domains s \<subseteq> completed_domains s')"

definition skips :: "pystr set \<Rightarrow> scanner \<Rightarrow> scanner \<Rightarrow> bool" where
  "skips D s s' =
     ((\<exists>new. invocations (env s') = invocations (env s) @ new \<and> (\<forall>x\<in>set new. fst x \<notin> D))
      \<and> completed_domains s \<subseteq> completed_domains s')"

text \<open>
  The engine results on which \<open>_run_trufflehog\<close> returns \<open>(False, "rate_limit")\<close>: a
  failure whose diagnostic contains 403, or whose diagnostic is that very text. An engine
  is always rate limited when every invocation ends so, after a non-negative time.
\<close>

definition yields_rate_limit :: "proc_result \<Rightarrow> bool" where
  "yields_rate_limit r =
     (case r of
        CalledProcessError err \<Rightarrow>
          contains (ascii ''403'') (case err of None \<Rightarrow> [] | Some e \<Rightarrow> e)
          \<or> err = Some (ascii ''rate_limit'')
      | Completed out \<Rightarrow> False
      | TimeoutExpired \<Rightarrow> False)"

definition always_rate_limited :: "externals \<Rightarrow> bool" where
  "always_rate_limited X =
     (\<forall>n domain pat. yields_rate_limit (fst (engine X n domain pat))
                     \<and> 0 \<le> snd (engine X n domain pat))"

text \<open>
  The state of the pool that \<open>__init__\<close> builds and every scan keeps: some credentials,
  none of them empty, the cursor in range, and no cool-down expiry more than
  \<open>PAT_COOLDOWN\<close> ahead of the clock.
\<close>

definition pool_ok :: "scanner \<Rightarrow> bool" where
  "pool_ok s =
     (pats s \<noteq> [] \<and> [] \<notin> set (pats s) \<and> current_pat_index s < length (pats s)
      \<and> (\<forall>p t. rate_limited_pats s p = Some t \<longrightarrow> t \<le> clock (env s) + PAT_COOLDOWN))"




section \<open>Concrete inputs\<close>

text \<open>
  An empty world, a fresh scanner over a given pool, externals around a given engine, and
  three engines: one that always fails with a 403 diagnostic, one that always fails for
  another reason, one that always succeeds with empty output, each after one second.
\<close>

definition ex_world :: world where
  "ex_world = \<lparr>pats_file = None, domains_file = None, completed_file = None,
                results_files = Map.empty, verified_files = Map.empty, clock = 0,
                telegram = [], invocations = []\<rparr>"

definition ex_scanner :: "pystr list \<Rightarrow> scanner" where
  "ex_scanner ps = \<lparr>pats = ps, completed_domains = {}, rate_limited_pats = Map.empty,
                     current_pat_index = 0, env = ex_world\<rparr>"

definition ex_externals :: "(nat \<Rightarrow> pystr \<Rightarrow> pystr \<Rightarrow> proc_result \<times> real) \<Rightarrow> externals" where
  "ex_externals eng = \<lparr>engine = eng, json_loads = (\<lambda>l. None), py_str = (\<lambda>v. []),
                        strftime_HM = (\<lambda>t. [])\<rparr>"

definition ex_engine_403 :: "nat \<Rightarrow> pystr \<Rightarrow> pystr \<Rightarrow> proc_result \<times> real" where
  "ex_engine_403 n domain pat = (CalledProcessError (Some (ascii ''HTTP 403 Forbidden'')), 1)"


definition ex_engine_ok :: "nat \<Rightarrow> pystr \<Rightarrow> pystr \<Rightarrow> proc_result \<times> real" where
  "ex_engine_ok n domain pat = (Completed [], 1)"

text \<open>
  A world with one credential, the targets acme, beta, beta, and acme in the completed
  ledger; and the scanner that \<open>__init__\<close> builds on it.
\<close>

definition ex_files :: world where
  "ex_files = ex_world\<lparr>pats_file := Some [ascii ''tokA'' @ [10]],
                         domains_file := Some [ascii ''acme'' @ [10], ascii ''beta'' @ [10],
                                               ascii ''beta'' @ [10]],
                         completed_file := Some [ascii ''acme'' @ [10]]\<rparr>"

definition ex_started :: scanner where
  "ex_started = \<lparr>pats = [ascii ''tokA''], completed_domains = {ascii ''acme''},
                  rate_limited_pats = Map.empty, current_pat_index = 0, env = ex_files\<rparr>"

text \<open>
  Output lines of the engine and the values \<open>json.loads\<close> gives for them: a verified
  finding with a permalink, a verified finding without source metadata, an unverified
  finding; an output of four lines, the first not JSON, the third a JSON list.
\<close>

definition ex_quoted :: "string \<Rightarrow> pystr" where
  "ex_quoted t = [34] @ ascii t @ [34]"

definition ex_line_verified :: pystr where
  "ex_line_verified =
     ascii ''{'' @ ex_quoted ''Verified'' @ ascii '': true, '' @ ex_quoted ''SourceMetadata''
     @ ascii '': {'' @ ex_quoted ''Data'' @ ascii '': {'' @ ex_quoted ''Github'' @ ascii '': {''
     @ ex_quoted ''link'' @ ascii '': '' @ ex_quoted ''https://x/1'' @ ascii ''}}}}''"

definition ex_finding_verified :: json where
  "ex_finding_verified =
     JObj [(ascii ''Verified'', JBool True),
           (ascii ''SourceMetadata'',
            JObj [(ascii ''Data'',
                   JObj [(ascii ''Github'',
                          JObj [(ascii ''link'', JStr (ascii ''https://x/1''))])])])]"

definition ex_line_nolink :: pystr where
  "ex_line_nolink = ascii ''{'' @ ex_quoted ''Verified'' @ ascii '': true}''"

definition ex_finding_nolink :: json where
  "ex_finding_nolink = JObj [(ascii ''Verified'', JBool True)]"

definition ex_line_unverified :: pystr where
  "ex_line_unverified = ascii ''{'' @ ex_quoted ''Verified'' @ ascii '': false}''"

definition ex_finding_unverified :: json where
  "ex_finding_unverified = JObj [(ascii ''Verified'', JBool False)]"

definition ex_json_loads :: "pystr \<Rightarrow> json option" where
  "ex_json_loads line =
     (if line = ex_line_verified then Some ex_finding_verified
      else if line = ex_line_nolink then Some ex_finding_nolink
      else if line = ex_line_unverified then Some ex_finding_unverified
      else if line = ascii ''[]'' then Some (JArr [])
      else None)"


definition ex_parsing :: externals where
  "ex_parsing = (ex_externals ex_engine_ok)\<lparr>json_loads := ex_json_loads\<rparr>"

text \<open>
  A verified finding whose permalink is 3000 characters long, and the alert blocks of
  the short and of the long finding (detector name and file path take their defaults).
\<close>

definition ex_finding_big :: json where
  "ex_finding_big =
     JObj [(ascii ''Verified'', JBool True),
           (ascii ''SourceMetadata'',
            JObj [(ascii ''Data'',
                   JObj [(ascii ''Github'',
                          JObj [(ascii ''link'', JStr (replicate 3000 97))])])])]"

definition ex_block_small :: pystr where
  "ex_block_small =
     block ex_parsing (JStr (ascii ''Unknown Secret'')) (JStr (ascii ''Unknown file''))
       (JStr (ascii ''https://x/1''))"

definition ex_block_big :: pystr where
  "ex_block_big =
     block ex_parsing (JStr (ascii ''Unknown Secret'')) (JStr (ascii ''Unknown file''))
       (JStr (replicate 3000 97))"

section \<open>Credential pool: rotation and cool-down\<close>

lemma loop_serves_first:
  assumes "current_pat_index s < length (pats s)"
      and "\<not> cooling_down (rate_limited_pats s) (pats s ! current_pat_index s) now"
  shows "get_available_pat_loop (Suc n) now s =
           (Returned (Some (pats s ! current_pat_index s)),
            s\<lparr>current_pat_index := (current_pat_index s + 1) mod length (pats s),
              rate_limited_pats := (rate_limited_pats s)(pats s ! current_pat_index s := None)\<rparr>)"
  using assms by (simp add: Let_def)

lemma cooling_down_forget:
  "cooling_down (rl(q := None)) p t \<Longrightarrow> cooling_down rl p t"
  by (simp add: cooling_down_def split: if_splits)

lemma consecutive_calls_rotation:
  assumes "length ts \<le> length (pats s)" "current_pat_index s < length (pats s)"
      and "\<forall>t\<in>set ts. \<forall>p\<in>set (pats s). \<not> cooling_down (rate_limited_pats s) p t"
  shows "fst (consecutive_calls ts s) =
           map (\<lambda>j. Returned (Some (pats s ! ((current_pat_index s + j) mod length (pats s)))))
               [0..<length ts]"
  using assms
proof (induction ts arbitrary: s)
  case Nil
  then show ?case by simp
next
  case (Cons t ts)
  let ?N = "length (pats s)"
  let ?i = "current_pat_index s"
  let ?s0 = "s\<lparr>env := (env s)\<lparr>clock := t\<rparr>\<rparr>"
  let ?s1 = "?s0\<lparr>current_pat_index := (?i + 1) mod ?N,
                 rate_limited_pats := (rate_limited_pats s)(pats s ! ?i := None)\<rparr>"
  have pos: "0 < ?N" using Cons.prems(2) by (cases "pats s") simp_all
  have mem: "pats s ! ?i \<in> set (pats s)" using Cons.prems(2) by simp
  have free: "\<not> cooling_down (rate_limited_pats ?s0) (pats ?s0 ! current_pat_index ?s0) t"
    using Cons.prems(3) mem by simp
  obtain m where N: "?N = Suc m" using pos by (cases ?N) auto
  have call: "get_available_pat ?s0 = (Returned (Some (pats s ! ?i)), ?s1)"
    unfolding get_available_pat_def using loop_serves_first [of ?s0 t m] free Cons.prems(2) N
    by simp
  have ih: "fst (consecutive_calls ts ?s1) =
              map (\<lambda>j. Returned (Some (pats ?s1 ! ((current_pat_index ?s1 + j) mod length (pats ?s1)))))
                  [0..<length ts]"
  proof (rule Cons.IH)
    show "length ts \<le> length (pats ?s1)" using Cons.prems(1) by simp
    show "current_pat_index ?s1 < length (pats ?s1)" using pos by simp
    show "\<forall>t\<in>set ts. \<forall>p\<in>set (pats ?s1). \<not> cooling_down (rate_limited_pats ?s1) p t"
    proof (intro ballI)
      fix u p assume u: "u \<in> set ts" and p: "p \<in> set (pats ?s1)"
      have "\<not> cooling_down (rate_limited_pats s) p u" using Cons.prems(3) u p by simp
      then show "\<not> cooling_down (rate_limited_pats ?s1) p u"
        using cooling_down_forget [of "rate_limited_pats s" "pats s ! ?i" p u] by auto
    qed
  qed
  have shift: "((?i + 1) mod ?N + j) mod ?N = (?i + Suc j) mod ?N" for j
    by (simp add: mod_simps)
  have upt: "[0..<length (t # ts)] = 0 # map Suc [0..<length ts]"
    by (simp add: upt_conv_Cons map_Suc_upt del: upt_Suc)
  have "fst (consecutive_calls (t # ts) s) =
          Returned (Some (pats s ! ?i)) # fst (consecutive_calls ts ?s1)"
    using call by (simp add: split_beta)
  also have "\<dots> = Returned (Some (pats s ! ?i)) #
          map (\<lambda>j. Returned (Some (pats s ! ((?i + Suc j) mod ?N)))) [0..<length ts]"
    using ih by (simp add: mod_simps)
  finally show ?case
    unfolding upt using Cons.prems(2) by (simp add: comp_def)
qed

lemma rotate_as_map:
  assumes "i < length xs"
  shows "map (\<lambda>j. f (xs ! ((i + j) mod length xs))) [0..<length xs] = map f (rotate i xs)"
  by (rule nth_equalityI) (simp_all add: nth_rotate add.commute)

text \<open>
  C5 (round-robin fairness). In a pool of N credentials whose cursor is in range and none
  of which is cooling down at any of the N clock readings, N consecutive calls return the
  credentials in rotation order from the cursor: the list \<open>pats\<close> rotated by the cursor,
  so every position is served once before any repeats.
\<close>

theorem round_robin_fairness:
  assumes "length ts = length (pats s)" "current_pat_index s < length (pats s)"
      and "\<forall>t\<in>set ts. \<forall>p\<in>set (pats s). \<not> cooling_down (rate_limited_pats s) p t"
  shows "fst (consecutive_calls ts s) =
           map (\<lambda>p. Returned (Some p)) (rotate (current_pat_index s) (pats s))"
proof -
  have "fst (consecutive_calls ts s) =
          map (\<lambda>j. Returned (Some (pats s ! ((current_pat_index s + j) mod length (pats s)))))
              [0..<length (pats s)]"
    using consecutive_calls_rotation [of ts s] assms by simp
  then show ?thesis
    using rotate_as_map [OF assms(2), of "\<lambda>p. Returned (Some p)"] by simp
qed


theorem round_robin_fairness_witness:
  "length [0, 5 :: real] = length (pats \<lparr>pats = [ascii ''tokA'', ascii ''tokB''], completed_domains = {},
        rate_limited_pats = Map.empty, current_pat_index = 1,
        env = \<lparr>pats_file = None, domains_file = None, completed_file = None,
               results_files = Map.empty, verified_files = Map.empty, clock = 0,
               telegram = [], invocations = []\<rparr>\<rparr>)
   \<and> fst (consecutive_calls [0, 5]
        \<lparr>pats = [ascii ''tokA'', ascii ''tokB''], completed_domains = {},
         rate_limited_pats = Map.empty, current_pat_index = 1,
         env = \<lparr>pats_file = None, domains_file = None, completed_file = None,
                results_files = Map.empty, verified_files = Map.empty, clock = 0,
                telegram = [], invocations = []\<rparr>\<rparr>)
       = [Returned (Some (ascii ''tokB'')), Returned (Some (ascii ''tokA''))]"
  using round_robin_fairness [of "[0, 5]"
        "\<lparr>pats = [ascii ''tokA'', ascii ''tokB''], completed_domains = {},
         rate_limited_pats = Map.empty, current_pat_index = 1,
         env = \<lparr>pats_file = None, domains_file = None, completed_file = None,
                results_files = Map.empty, verified_files = Map.empty, clock = 0,
                telegram = [], invocations = []\<rparr>\<rparr>"]
  by (simp add: cooling_down_def rotate1_def del: consecutive_calls.simps)






section \<open>Frame properties and the retry loop\<close>

lemma get_available_pat_loop_frame:
  "get_available_pat_loop n now s = (r, s') \<Longrightarrow>
     env s' = env s \<and> completed_domains s' = completed_domains s \<and> pats s' = pats s"
proof (induction n arbitrary: s)
  case 0
  then show ?case by auto
next
  case (Suc n)
  show ?case
  proof (cases "current_pat_index s < length (pats s)")
    case False
    with Suc.prems show ?thesis by auto
  next
    case True
    let ?s1 = "s\<lparr>current_pat_index := (current_pat_index s + 1) mod length (pats s)\<rparr>"
    show ?thesis
    proof (cases "cooling_down (rate_limited_pats s) (pats s ! current_pat_index s) now")
      case True
      with Suc.prems \<open>current_pat_index s < length (pats s)\<close>
      have "get_available_pat_loop n now ?s1 = (r, s')" by (simp add: Let_def)
      from Suc.IH [OF this] show ?thesis by simp
    next
      case False
      with Suc.prems \<open>current_pat_index s < length (pats s)\<close> show ?thesis
        by (auto simp: Let_def)
    qed
  qed
qed

lemma get_available_pat_frame:
  "get_available_pat s = (r, s') \<Longrightarrow>
     env s' = env s \<and> completed_domains s' = completed_domains s \<and> pats s' = pats s"
  unfolding get_available_pat_def by (rule get_available_pat_loop_frame)

lemma get_available_pat_loop_no_fuel: "fst (get_available_pat_loop n now s) \<noteq> OutOfFuel"
  by (induction n arbitrary: s) (simp_all add: Let_def)

lemma run_trufflehog_frame:
  assumes "run_trufflehog X domain pat s = (ro, s')"
  shows "pats s' = pats s" "completed_domains s' = completed_domains s"
    "current_pat_index s' = current_pat_index s"
    "invocations (env s') = invocations (env s) @ [(domain, pat)]"
    "results_files (env s') = results_files (env s)"
    "verified_files (env s') = verified_files (env s)"
    "completed_file (env s') = completed_file (env s)"
    "domains_file (env s') = domains_file (env s)"
    "telegram (env s') = telegram (env s)"
  using assms
  by (auto simp: run_trufflehog_def Let_def split_beta split: proc_result.splits if_splits)

lemma on_success_frame:
  assumes "on_success X domain out s = (r, s')"
  shows "r \<noteq> Returned False" "r \<noteq> OutOfFuel"
    "invocations (env s') = invocations (env s)"
    "completed_domains s \<subseteq> completed_domains s'"
    "domains_file (env s') = domains_file (env s)"
  using assms
  by (auto simp: on_success_def Let_def split_beta mark_domain_completed_def
        send_telegram_alert_def split: sum.splits if_splits)

lemma unchanged_results_refl: "unchanged_results s s"
  by (simp add: unchanged_results_def)

lemma unchanged_results_trans:
  "unchanged_results s s1 \<Longrightarrow> unchanged_results s1 s2 \<Longrightarrow> unchanged_results s s2"
  by (simp add: unchanged_results_def)

lemma unchanged_results_sleep: "unchanged_results s (sleep d s)"
  by (simp add: unchanged_results_def sleep_def)

lemma unchanged_results_get:
  "get_available_pat s = (r, s1) \<Longrightarrow> unchanged_results s s1"
  using get_available_pat_frame [of s r s1] by (simp add: unchanged_results_def)

lemma unchanged_results_invoke:
  "run_trufflehog X domain pat s = (ro, s1) \<Longrightarrow> unchanged_results s s1"
  using run_trufflehog_frame [of X domain pat s ro s1] by (simp add: unchanged_results_def)

lemma scan_domain_loop_rel:
  assumes rel_refl: "\<And>a. R a a"
      and rel_trans: "\<And>a b c. R a b \<Longrightarrow> R b c \<Longrightarrow> R a c"
      and rel_get: "\<And>a q b. get_available_pat a = (q, b) \<Longrightarrow> R a b"
      and rel_sleep: "\<And>a d. 0 \<le> d \<Longrightarrow> R a (sleep d a)"
      and rel_invoke: "\<And>a pat q b. run_trufflehog X domain pat a = (q, b) \<Longrightarrow> R a b"
      and rel_success: "\<And>a out q b. on_success X domain out a = (q, b) \<Longrightarrow> G q \<Longrightarrow> R a b"
  shows "scan_domain_loop fuel X domain attempts s = (r, s') \<Longrightarrow> G r \<Longrightarrow> R s s'"
proof (induction fuel arbitrary: attempts s)
  case 0
  then show ?case by (auto simp: rel_refl)
next
  case (Suc fuel)
  show ?case
  proof (cases "attempts < MAX_RETRIES_PER_DOMAIN")
    case False
    with Suc.prems show ?thesis by (auto simp: rel_refl)
  next
    case True
    obtain r1 s1 where g: "get_available_pat s = (r1, s1)" by (cases "get_available_pat s")
    note u1 = rel_get [OF g]
    have wait: ?thesis
      if "scan_domain_loop fuel X domain attempts (sleep PAT_COOLDOWN s1) = (r, s')"
    proof -
      have "R (sleep PAT_COOLDOWN s1) s'"
        using Suc.IH [OF that Suc.prems(2)] .
      moreover have "R s1 (sleep PAT_COOLDOWN s1)"
        by (rule rel_sleep) (simp add: PAT_COOLDOWN_def)
      ultimately show ?thesis using u1
        by (blast intro: rel_trans)
    qed
    show ?thesis
    proof (cases r1)
      case (Raised e)
      with Suc.prems True g u1 show ?thesis by auto
    next
      case OutOfFuel
      with Suc.prems True g u1 show ?thesis by auto
    next
      case (Returned po)
      show ?thesis
      proof (cases po)
        case None
        with Suc.prems(1) True g Returned show ?thesis by (intro wait) simp
      next
        case (Some pat)
        show ?thesis
        proof (cases "pat = []")
          case True
          with Suc.prems(1) \<open>attempts < MAX_RETRIES_PER_DOMAIN\<close> g Returned Some
          show ?thesis by (intro wait) simp
        next
          case False
          obtain success outp s2 where
            inv: "run_trufflehog X domain pat s1 = ((success, outp), s2)"
            by (cases "run_trufflehog X domain pat s1") auto
          note u2 = rel_invoke [OF inv]
          from Suc.prems(1) True g Returned Some False inv
          have step: "(r, s') =
              (if success then
                 (case outp of
                    Some out \<Rightarrow> on_success X domain out s2
                  | None \<Rightarrow>
                      (Raised (AttributeError
                         (ascii [CHR 0x27] @ ascii ''NoneType'' @ ascii [CHR 0x27]
                          @ ascii '' object has no attribute '' @ ascii [CHR 0x27]
                          @ ascii ''splitlines'' @ ascii [CHR 0x27])), s2))
               else if outp = Some (ascii ''rate_limit'')
               then scan_domain_loop fuel X domain (attempts + 1) (sleep 2 s2)
               else (Returned False, s2))"
            by simp
          show ?thesis
          proof (cases success)
            case True
            show ?thesis
            proof (cases outp)
              case None
              with step True Suc.prems(2) u1 u2 show ?thesis
                by (auto intro: rel_trans)
            next
              case (Some out)
              with step True have "on_success X domain out s2 = (r, s')" by simp
              from rel_success [OF this Suc.prems(2)] u1 u2 show ?thesis
                by (blast intro: rel_trans)
            qed
          next
            case nsucc: False
            show ?thesis
            proof (cases "outp = Some (ascii ''rate_limit'')")
              case True
              with step nsucc
              have "scan_domain_loop fuel X domain (attempts + 1) (sleep 2 s2) = (r, s')"
                by simp
              from Suc.IH [OF this Suc.prems(2)] u1 u2 rel_sleep [of 2 s2]
              show ?thesis by (auto intro: rel_trans)
            next
              case False
              with step nsucc have "s' = s2" by simp
              with u1 u2 show ?thesis by (blast intro: rel_trans)
            qed
          qed
        qed
      qed
    qed
  qed
qed

lemma scan_domain_loop_failure_frame:
  assumes "scan_domain_loop fuel X domain attempts s = (r, s')"
      and "r = Returned False \<or> r = OutOfFuel"
  shows "unchanged_results s s'"
proof (rule scan_domain_loop_rel [where R = unchanged_results
        and G = "\<lambda>q. q = Returned False \<or> q = OutOfFuel", OF _ _ _ _ _ _ assms])
  show "unchanged_results a a" for a by (rule unchanged_results_refl)
  show "unchanged_results a b \<Longrightarrow> unchanged_results b c \<Longrightarrow> unchanged_results a c" for a b c
    by (rule unchanged_results_trans)
  show "get_available_pat a = (q, b) \<Longrightarrow> unchanged_results a b" for a q b
    by (rule unchanged_results_get)
  show "0 \<le> d \<Longrightarrow> unchanged_results a (sleep d a)" for a d
    by (rule unchanged_results_sleep)
  show "run_trufflehog X domain pat a = (q, b) \<Longrightarrow> unchanged_results a b" for a pat q b
    by (rule unchanged_results_invoke)
  show "on_success X domain out a = (q, b) \<Longrightarrow> q = Returned False \<or> q = OutOfFuel \<Longrightarrow>
          unchanged_results a b" for a out q b
    using on_success_frame(1,2) [of X domain out a q b] by auto
qed



lemma scans_only_refl: "scans_only domain s s"
  by (simp add: scans_only_def)

lemma scans_only_trans:
  assumes "scans_only domain a b" "scans_only domain b c"
  shows "scans_only domain a c"
proof -
  from assms obtain n1 n2 where
    "invocations (env b) = invocations (env a) @ n1" "\<forall>x\<in>set n1. fst x = domain"
    "invocations (env c) = invocations (env b) @ n2" "\<forall>x\<in>set n2. fst x = domain"
    unfolding scans_only_def by blast
  then have "invocations (env c) = invocations (env a) @ (n1 @ n2)"
    "\<forall>x\<in>set (n1 @ n2). fst x = domain" by auto
  moreover have "completed_domains a \<subseteq> completed_domains c"
    using assms unfolding scans_only_def by blast
  ultimately show ?thesis unfolding scans_only_def by blast
qed

lemma scans_only_sleep: "scans_only domain s (sleep d s)"
  by (simp add: scans_only_def sleep_def)

lemma scans_only_get: "get_available_pat s = (r, s1) \<Longrightarrow> scans_only domain s s1"
  using get_available_pat_frame [of s r s1] by (simp add: scans_only_def)

lemma scans_only_invoke:
  "run_trufflehog X domain pat s = (ro, s1) \<Longrightarrow> scans_only domain s s1"
  using run_trufflehog_frame [of X domain pat s ro s1] by (simp add: scans_only_def)

lemma scans_only_success:
  "on_success X domain out s = (r, s1) \<Longrightarrow> scans_only domain s s1"
  using on_success_frame [of X domain out s r s1] by (simp add: scans_only_def)

lemma scan_domain_scans_only:
  assumes "scan_domain fuel X domain s = (r, s')"
  shows "scans_only domain s s'"
proof (rule scan_domain_loop_rel [where R = "scans_only domain" and G = "\<lambda>q. True"
        and X = X and domain = domain and fuel = fuel and attempts = 0 and r = r])
  show "scans_only domain a a" for a by (rule scans_only_refl)
  show "scans_only domain a b \<Longrightarrow> scans_only domain b c \<Longrightarrow> scans_only domain a c" for a b c
    by (rule scans_only_trans)
  show "get_available_pat a = (q, b) \<Longrightarrow> scans_only domain a b" for a q b
    by (rule scans_only_get)
  show "0 \<le> d \<Longrightarrow> scans_only domain a (sleep d a)" for a d
    by (rule scans_only_sleep)
  show "run_trufflehog X domain pat a = (q, b) \<Longrightarrow> scans_only domain a b" for a pat q b
    by (rule scans_only_invoke)
  show "on_success X domain out a = (q, b) \<Longrightarrow> True \<Longrightarrow> scans_only domain a b" for a out q b
    by (rule scans_only_success)
  show "scan_domain_loop fuel X domain 0 s = (r, s')" using assms by (simp add: scan_domain_def)
  show True ..
qed

section \<open>Completed targets are skipped\<close>

lemma skips_refl: "skips D s s"
  by (simp add: skips_def)

lemma skips_trans:
  assumes "skips D a b" "skips D b c"
  shows "skips D a c"
proof -
  from assms obtain n1 n2 where
    "invocations (env b) = invocations (env a) @ n1" "\<forall>x\<in>set n1. fst x \<notin> D"
    "invocations (env c) = invocations (env b) @ n2" "\<forall>x\<in>set n2. fst x \<notin> D"
    unfolding skips_def by blast
  then have "invocations (env c) = invocations (env a) @ (n1 @ n2)"
    "\<forall>x\<in>set (n1 @ n2). fst x \<notin> D" by auto
  moreover have "completed_domains a \<subseteq> completed_domains c"
    using assms unfolding skips_def by blast
  ultimately show ?thesis unfolding skips_def by blast
qed

lemma skips_sleep: "skips D s (sleep d s)"
  by (simp add: skips_def sleep_def)

lemma scans_only_skips: "scans_only domain s s' \<Longrightarrow> domain \<notin> D \<Longrightarrow> skips D s s'"
  unfolding scans_only_def skips_def by fastforce

lemma skips_mono: "skips D s s' \<Longrightarrow> D \<subseteq> completed_domains s \<Longrightarrow> D \<subseteq> completed_domains s'"
  unfolding skips_def by blast

lemma run_loop_skips:
  "run_loop fuel X ds s = (r, s') \<Longrightarrow> D \<subseteq> completed_domains s \<Longrightarrow> skips D s s'"
proof (induction ds arbitrary: s)
  case Nil
  then show ?case by (simp add: skips_refl)
next
  case (Cons domain rest)
  show ?case
  proof (cases "domain \<in> completed_domains s")
    case True
    with Cons.prems have "run_loop fuel X rest s = (r, s')" by simp
    from Cons.IH [OF this Cons.prems(2)] show ?thesis .
  next
    case False
    obtain q s1 where sc: "scan_domain fuel X domain s = (q, s1)"
      by (cases "scan_domain fuel X domain s")
    have "domain \<notin> D" using False Cons.prems(2) by blast
    with scan_domain_scans_only [OF sc] have k1: "skips D s s1" by (rule scans_only_skips)
    show ?thesis
    proof (cases q)
      case (Returned b)
      with Cons.prems(1) False sc have rest: "run_loop fuel X rest (sleep 5 s1) = (r, s')"
        by simp
      have k2: "skips D s (sleep 5 s1)"
        using k1 skips_sleep [of D s1 5] by (rule skips_trans)
      have "D \<subseteq> completed_domains (sleep 5 s1)"
        using skips_mono [OF k2 Cons.prems(2)] .
      from Cons.IH [OF rest this] k2 show ?thesis by (blast intro: skips_trans)
    next
      case (Raised e)
      with Cons.prems(1) False sc k1 show ?thesis by auto
    next
      case OutOfFuel
      with Cons.prems(1) False sc k1 show ?thesis by auto
    qed
  qed
qed

lemma run_loop_append:
  "run_loop fuel X (before @ after) s =
     (case run_loop fuel X before s of
        (Returned u, s1) \<Rightarrow> run_loop fuel X after s1
      | (Raised e, s1) \<Rightarrow> (Raised e, s1)
      | (OutOfFuel, s1) \<Rightarrow> (OutOfFuel, s1))"
proof (induction before arbitrary: s)
  case Nil
  show ?case by simp
next
  case (Cons domain rest)
  show ?case
  proof (cases "domain \<in> completed_domains s")
    case True
    then show ?thesis using Cons.IH [of s] by simp
  next
    case False
    obtain q s1 where sc: "scan_domain fuel X domain s = (q, s1)"
      by (cases "scan_domain fuel X domain s")
    show ?thesis
      using False sc Cons.IH [of "sleep 5 s1"] by (cases q) simp_all
  qed
qed

lemma skips_no_invocation:
  assumes "skips {domain} s s'"
  shows "(domain, pat) \<notin> set (drop (length (invocations (env s))) (invocations (env s')))"
proof -
  from assms obtain new where
    "invocations (env s') = invocations (env s) @ new" "\<forall>x\<in>set new. fst x \<notin> {domain}"
    unfolding skips_def by blast
  then show ?thesis by auto
qed

text \<open>
  C9 (idempotent completion). A target read from the completed ledger at start-up is in
  the completed set; \<open>run\<close> makes no engine invocation for a target that is in the
  completed set when it starts; and once the loop of \<open>run\<close> has worked through a part
  \<open>before\<close> of the target list, no later invocation is for a target in the completed
  set reached then, so a target completed during the run is skipped as well.
\<close>

theorem completed_targets_never_scanned:
  "(init w = Inr s0 \<and> completed_file w = Some ls \<and> domain \<in> set (stripped_lines ls)
      \<longrightarrow> domain \<in> completed_domains s0)
   \<and> (domain \<in> completed_domains s
      \<longrightarrow> (domain, pat) \<notin> set (drop (length (invocations (env s)))
                                    (invocations (env (snd (run fuel X s))))))
   \<and> (run_loop fuel X before s = (Returned (), s1) \<and> domain \<in> completed_domains s1
      \<longrightarrow> (domain, pat) \<notin> set (drop (length (invocations (env s1)))
                                    (invocations (env (snd (run_loop fuel X (before @ after) s))))))"
proof (intro conjI impI)
  assume "init w = Inr s0 \<and> completed_file w = Some ls \<and> domain \<in> set (stripped_lines ls)"
  then show "domain \<in> completed_domains s0"
    by (auto simp: init_def load_completed_domains_def split: sum.splits)
next
  assume d: "domain \<in> completed_domains s"
  show "(domain, pat) \<notin> set (drop (length (invocations (env s)))
                                (invocations (env (snd (run fuel X s)))))"
  proof (cases "domains_file (env s)")
    case None
    then show ?thesis by (simp add: run_def)
  next
    case (Some ls)
    obtain r s' where rl: "run_loop fuel X (stripped_lines ls) s = (r, s')"
      by (cases "run_loop fuel X (stripped_lines ls) s")
    have "skips {domain} s s'" using run_loop_skips [OF rl] d by simp
    from skips_no_invocation [OF this] Some rl show ?thesis by (simp add: run_def)
  qed
next
  assume a: "run_loop fuel X before s = (Returned (), s1) \<and> domain \<in> completed_domains s1"
  obtain r s' where rl: "run_loop fuel X after s1 = (r, s')"
    by (cases "run_loop fuel X after s1")
  have "skips {domain} s1 s'" using run_loop_skips [OF rl] a by simp
  from skips_no_invocation [OF this] a rl
  show "(domain, pat) \<notin> set (drop (length (invocations (env s1)))
                                (invocations (env (snd (run_loop fuel X (before @ after) s)))))"
    by (simp add: run_loop_append)
qed

lemma ex_init: "init ex_files = Inr ex_started"
  by (simp add: init_def load_pats_def load_completed_domains_def stripped_lines_def strip_def
        py_isspace_def ex_files_def ex_started_def ex_world_def ascii_def)

lemma ex_scan_beta:
  "scan_domain (Suc 0) (ex_externals ex_engine_ok) (ascii ''beta'') ex_started =
     (Returned True,
      ex_started\<lparr>completed_domains := {ascii ''beta'', ascii ''acme''},
                 env := ex_files\<lparr>invocations := [(ascii ''beta'', ascii ''tokA'')], clock := 1,
                          results_files := [ascii ''beta'' \<mapsto> []],
                          completed_file := Some [ascii ''acme'' @ [10], ascii ''beta'' @ [10]]\<rparr>\<rparr>)"
  by (simp add: scan_domain_def get_available_pat_def cooling_down_def run_trufflehog_def
        on_success_def splitlines_def mark_domain_completed_def
        ex_externals_def ex_engine_ok_def ex_started_def ex_files_def ex_world_def ascii_def
        MAX_RETRIES_PER_DOMAIN_def)

theorem completed_targets_never_scanned_witness:
  "init ex_files = Inr ex_started
   \<and> completed_file ex_files = Some [ascii ''acme'' @ [10]]
   \<and> ascii ''acme'' \<in> set (stripped_lines [ascii ''acme'' @ [10]])
   \<and> ascii ''acme'' \<in> completed_domains ex_started
   \<and> (ascii ''acme'', ascii ''tokA'') \<notin> set (drop (length (invocations (env ex_started)))
         (invocations (env (snd (run (Suc 0) (ex_externals ex_engine_ok) ex_started)))))
   \<and> run_loop (Suc 0) (ex_externals ex_engine_ok) [ascii ''beta''] ex_started =
        (Returned (),
         sleep 5 (snd (scan_domain (Suc 0) (ex_externals ex_engine_ok) (ascii ''beta'') ex_started)))
   \<and> ascii ''beta'' \<in> completed_domains
        (sleep 5 (snd (scan_domain (Suc 0) (ex_externals ex_engine_ok) (ascii ''beta'') ex_started)))
   \<and> (ascii ''beta'', ascii ''tokA'') \<notin> set (drop (length (invocations (env
          (sleep 5 (snd (scan_domain (Suc 0) (ex_externals ex_engine_ok) (ascii ''beta'') ex_started))))))
         (invocations (env (snd (run_loop (Suc 0) (ex_externals ex_engine_ok)
            ([ascii ''beta''] @ [ascii ''beta'']) ex_started)))))"
  using completed_targets_never_scanned [of ex_files ex_started "[ascii ''acme'' @ [10]]"
      "ascii ''acme''" ex_started "ascii ''tokA''" "Suc 0" "ex_externals ex_engine_ok" "[]"
      ex_started "[]"]
    completed_targets_never_scanned [of ex_files ex_started "[ascii ''acme'' @ [10]]"
      "ascii ''beta''" ex_started "ascii ''tokA''" "Suc 0" "ex_externals ex_engine_ok"
      "[ascii ''beta'']"
      "sleep 5 (snd (scan_domain (Suc 0) (ex_externals ex_engine_ok) (ascii ''beta'') ex_started))"
      "[ascii ''beta'']"]
    ex_init ex_scan_beta
  by (simp add: sleep_def stripped_lines_def strip_def py_isspace_def ascii_def
        ex_started_def ex_files_def ex_world_def)

section \<open>The retry ceiling\<close>

lemma invoke_rate_limited:
  assumes "always_rate_limited X" "pool_ok s"
  shows "\<exists>s2. run_trufflehog X domain pat s = ((False, Some (ascii ''rate_limit'')), s2)
              \<and> pool_ok s2
              \<and> invocations (env s2) = invocations (env s) @ [(domain, pat)]"
proof -
  obtain r dt where e: "engine X (length (invocations (env s))) domain pat = (r, dt)"
    by (cases "engine X (length (invocations (env s))) domain pat")
  from assms(1) e have y: "yields_rate_limit r" and dt: "0 \<le> dt"
    unfolding always_rate_limited_def by (metis fst_conv, metis snd_conv)
  from y obtain err where r: "r = CalledProcessError err"
    and c: "contains (ascii ''403'') (case err of None \<Rightarrow> [] | Some e \<Rightarrow> e)
            \<or> err = Some (ascii ''rate_limit'')"
    unfolding yields_rate_limit_def by (cases r) auto
  have later: "t \<le> clock (env s) + dt + 300" if "rate_limited_pats s p = Some t" for p t
  proof -
    from that assms(2) have "t \<le> clock (env s) + 300"
      by (simp add: pool_ok_def PAT_COOLDOWN_def)
    with dt show ?thesis by linarith
  qed
  show ?thesis
  proof (cases "contains (ascii ''403'') (case err of None \<Rightarrow> [] | Some e \<Rightarrow> e)")
    case True
    with e r assms(2) show ?thesis
      by (auto simp: run_trufflehog_def pool_ok_def PAT_COOLDOWN_def intro: later)
  next
    case False
    with c have "err = Some (ascii ''rate_limit'')" by simp
    with False e r assms(2) show ?thesis
      by (auto simp: run_trufflehog_def pool_ok_def PAT_COOLDOWN_def intro: later)
  qed
qed

lemma get_available_pat_loop_pool:
  "get_available_pat_loop n now s = (r, s1) \<Longrightarrow> current_pat_index s < length (pats s) \<Longrightarrow>
     current_pat_index s1 < length (pats s1)
     \<and> (\<forall>p t. rate_limited_pats s1 p = Some t \<longrightarrow> rate_limited_pats s p = Some t)
     \<and> (\<exists>po. r = Returned po \<and> (\<forall>pat. po = Some pat \<longrightarrow> pat \<in> set (pats s)))"
proof (induction n arbitrary: s)
  case 0
  then show ?case by auto
next
  case (Suc n)
  let ?s1 = "s\<lparr>current_pat_index := (current_pat_index s + 1) mod length (pats s)\<rparr>"
  have pos: "0 < length (pats s)" using Suc.prems(2) by (cases "pats s") simp_all
  show ?case
  proof (cases "cooling_down (rate_limited_pats s) (pats s ! current_pat_index s) now")
    case True
    with Suc.prems have "get_available_pat_loop n now ?s1 = (r, s1)" by (simp add: Let_def)
    moreover have "current_pat_index ?s1 < length (pats ?s1)" using pos by simp
    ultimately show ?thesis using Suc.IH [of ?s1] by simp
  next
    case False
    with Suc.prems pos show ?thesis by (auto simp: Let_def split: if_splits)
  qed
qed

lemma get_available_pat_pool:
  assumes "get_available_pat s = (r, s1)" "pool_ok s"
  shows "pool_ok s1" "env s1 = env s"
    "\<exists>po. r = Returned po \<and> (\<forall>pat. po = Some pat \<longrightarrow> pat \<noteq> [])"
proof -
  have idx: "current_pat_index s < length (pats s)" using assms(2) by (simp add: pool_ok_def)
  have loop: "get_available_pat_loop (length (pats s)) (clock (env s)) s = (r, s1)"
    using assms(1) by (simp add: get_available_pat_def)
  note fr = get_available_pat_loop_frame [OF loop]
  note pl = get_available_pat_loop_pool [OF loop idx]
  show "env s1 = env s" using fr by simp
  show "pool_ok s1"
  proof -
    have "t \<le> clock (env s1) + PAT_COOLDOWN" if "rate_limited_pats s1 p = Some t" for p t
    proof -
      from that pl have "rate_limited_pats s p = Some t" by blast
      with assms(2) fr show ?thesis by (simp add: pool_ok_def)
    qed
    moreover have "pats s1 \<noteq> []" "[] \<notin> set (pats s1)"
      "current_pat_index s1 < length (pats s1)"
      using assms(2) fr pl by (simp_all add: pool_ok_def)
    ultimately show ?thesis unfolding pool_ok_def by blast
  qed
  from pl obtain po where "r = Returned po" "\<forall>pat. po = Some pat \<longrightarrow> pat \<in> set (pats s)"
    by blast
  moreover have "[] \<notin> set (pats s)" using assms(2) by (simp add: pool_ok_def)
  ultimately show "\<exists>po. r = Returned po \<and> (\<forall>pat. po = Some pat \<longrightarrow> pat \<noteq> [])"
    by blast
qed

lemma get_available_pat_after_cooldown:
  assumes "pool_ok s" "\<forall>p t. rate_limited_pats s p = Some t \<longrightarrow> t \<le> clock (env s)"
  shows "\<exists>pat s1. get_available_pat s = (Returned (Some pat), s1) \<and> pat \<noteq> []
                  \<and> pool_ok s1 \<and> env s1 = env s"
proof -
  have idx: "current_pat_index s < length (pats s)" using assms(1) by (simp add: pool_ok_def)
  then obtain m where N: "length (pats s) = Suc m" by (cases "pats s") simp_all
  have free: "\<not> cooling_down (rate_limited_pats s) (pats s ! current_pat_index s) (clock (env s))"
    using assms(2) by (fastforce simp: cooling_down_def split: option.splits)
  obtain s1 where g: "get_available_pat s = (Returned (Some (pats s ! current_pat_index s)), s1)"
    unfolding get_available_pat_def N using loop_serves_first [OF idx free, of m] by simp
  have "pats s ! current_pat_index s \<in> set (pats s)" using idx by simp
  moreover have "[] \<notin> set (pats s)" using assms(1) by (simp add: pool_ok_def)
  ultimately have "pats s ! current_pat_index s \<noteq> []" by metis
  with g get_available_pat_pool(1,2) [OF g assms(1)] show ?thesis by blast
qed

lemma pool_ok_sleep: "pool_ok s \<Longrightarrow> 0 \<le> d \<Longrightarrow> pool_ok (sleep d s)"
proof -
  assume a: "pool_ok s" "0 \<le> d"
  have "t \<le> clock (env s) + d + PAT_COOLDOWN" if "rate_limited_pats s p = Some t" for p t
  proof -
    from that a(1) have "t \<le> clock (env s) + PAT_COOLDOWN" by (simp add: pool_ok_def)
    with a(2) show ?thesis by linarith
  qed
  with a(1) show ?thesis by (simp add: pool_ok_def sleep_def)
qed

lemma cooled_after_sleep:
  "pool_ok s \<Longrightarrow> rate_limited_pats (sleep PAT_COOLDOWN s) p = Some t \<Longrightarrow>
     t \<le> clock (env (sleep PAT_COOLDOWN s))"
  by (simp add: pool_ok_def sleep_def)

lemma attempt_now:
  assumes "always_rate_limited X" "attempts < MAX_RETRIES_PER_DOMAIN"
      and "get_available_pat s = (Returned (Some pat), s1)" "pat \<noteq> []" "pool_ok s1"
  shows "\<exists>s2. pool_ok s2
            \<and> invocations (env s2) = invocations (env s1) @ [(domain, pat)]
            \<and> (\<forall>fuel. scan_domain_loop (Suc fuel) X domain attempts s =
                       scan_domain_loop fuel X domain (attempts + 1) s2)"
proof -
  from invoke_rate_limited [OF assms(1,5), of domain pat] obtain s2 where
    inv: "run_trufflehog X domain pat s1 = ((False, Some (ascii ''rate_limit'')), s2)"
    and ok: "pool_ok s2"
    and tr: "invocations (env s2) = invocations (env s1) @ [(domain, pat)]"
    by blast
  have "pool_ok (sleep 2 s2)" using ok by (simp add: pool_ok_sleep)
  moreover have "invocations (env (sleep 2 s2)) = invocations (env s1) @ [(domain, pat)]"
    using tr by (simp add: sleep_def)
  moreover have "scan_domain_loop (Suc fuel) X domain attempts s =
                   scan_domain_loop fuel X domain (attempts + 1) (sleep 2 s2)" for fuel
    using assms(2,3,4) inv by simp
  ultimately show ?thesis by blast
qed

lemma attempt_or_wait:
  assumes "always_rate_limited X" "pool_ok s" "attempts < MAX_RETRIES_PER_DOMAIN"
  shows "\<exists>s2 pat. pool_ok s2
            \<and> invocations (env s2) = invocations (env s) @ [(domain, pat)]
            \<and> ((\<forall>fuel. scan_domain_loop (Suc fuel) X domain attempts s =
                        scan_domain_loop fuel X domain (attempts + 1) s2)
               \<or> (\<forall>fuel. scan_domain_loop (Suc (Suc fuel)) X domain attempts s =
                          scan_domain_loop fuel X domain (attempts + 1) s2))"
proof -
  obtain r s1 where g: "get_available_pat s = (r, s1)" by (cases "get_available_pat s")
  note p1 = get_available_pat_pool [OF g assms(2)]
  from p1(3) obtain po where r: "r = Returned po" and ne: "\<forall>pat. po = Some pat \<longrightarrow> pat \<noteq> []"
    by blast
  show ?thesis
  proof (cases po)
    case (Some pat)
    with g r have g': "get_available_pat s = (Returned (Some pat), s1)" by simp
    from ne Some have "pat \<noteq> []" by simp
    from attempt_now [OF assms(1,3) g' this p1(1), of domain] p1(2) show ?thesis
      by (metis (no_types, lifting))
  next
    case None
    let ?sw = "sleep PAT_COOLDOWN s1"
    have w: "scan_domain_loop (Suc fuel) X domain attempts s =
               scan_domain_loop fuel X domain attempts ?sw" for fuel
      using assms(3) g r None by simp
    have okw: "pool_ok ?sw" using p1(1) by (simp add: pool_ok_sleep PAT_COOLDOWN_def)
    have "\<forall>p t. rate_limited_pats ?sw p = Some t \<longrightarrow> t \<le> clock (env ?sw)"
      using cooled_after_sleep [OF p1(1)] by blast
    from get_available_pat_after_cooldown [OF okw this] obtain pat s1' where
      gw: "get_available_pat ?sw = (Returned (Some pat), s1')" and "pat \<noteq> []"
      and ok1': "pool_ok s1'" and e1': "env s1' = env ?sw"
      by blast
    from attempt_now [OF assms(1,3) gw \<open>pat \<noteq> []\<close> ok1', of domain] obtain s2 where
      ok2: "pool_ok s2"
      and tr: "invocations (env s2) = invocations (env s1') @ [(domain, pat)]"
      and st: "\<forall>fuel. scan_domain_loop (Suc fuel) X domain attempts ?sw =
                      scan_domain_loop fuel X domain (attempts + 1) s2"
      by blast
    have "invocations (env s2) = invocations (env s) @ [(domain, pat)]"
      using tr e1' p1(2) by (simp add: sleep_def)
    moreover have "\<forall>fuel. scan_domain_loop (Suc (Suc fuel)) X domain attempts s =
                         scan_domain_loop fuel X domain (attempts + 1) s2"
      using w st by simp
    ultimately show ?thesis using ok2 by blast
  qed
qed

lemma retries_exhaust:
  "always_rate_limited X \<Longrightarrow> pool_ok s \<Longrightarrow> attempts + k = MAX_RETRIES_PER_DOMAIN \<Longrightarrow>
   2 * k < fuel \<Longrightarrow>
     \<exists>s'. scan_domain_loop fuel X domain attempts s = (Returned False, s')
          \<and> length (invocations (env s')) = length (invocations (env s)) + k"
proof (induction k arbitrary: attempts s fuel)
  case 0
  then obtain f where "fuel = Suc f" by (cases fuel) simp_all
  with 0 show ?case by simp
next
  case (Suc k)
  have lt: "attempts < MAX_RETRIES_PER_DOMAIN" using Suc.prems(3) by simp
  from attempt_or_wait [OF Suc.prems(1,2) lt, of domain] obtain s2 pat where
    ok2: "pool_ok s2"
    and tr: "invocations (env s2) = invocations (env s) @ [(domain, pat)]"
    and st: "(\<forall>fuel. scan_domain_loop (Suc fuel) X domain attempts s =
                     scan_domain_loop fuel X domain (attempts + 1) s2)
             \<or> (\<forall>fuel. scan_domain_loop (Suc (Suc fuel)) X domain attempts s =
                        scan_domain_loop fuel X domain (attempts + 1) s2)"
    by blast
  have k: "attempts + 1 + k = MAX_RETRIES_PER_DOMAIN" using Suc.prems(3) by simp
  from Suc.prems(4) obtain f where fuel: "fuel = Suc (Suc f)" and f: "2 * k < f"
    by (cases fuel; cases "fuel - 1") auto
  from st show ?case
  proof
    assume "\<forall>fuel. scan_domain_loop (Suc fuel) X domain attempts s =
                   scan_domain_loop fuel X domain (attempts + 1) s2"
    then have "scan_domain_loop fuel X domain attempts s =
                 scan_domain_loop (Suc f) X domain (attempts + 1) s2"
      using fuel by simp
    moreover from f have "2 * k < Suc f" by simp
    from Suc.IH [OF Suc.prems(1) ok2 k this] obtain s' where
      "scan_domain_loop (Suc f) X domain (attempts + 1) s2 = (Returned False, s')"
      "length (invocations (env s')) = length (invocations (env s2)) + k"
      by blast
    ultimately show ?thesis using tr by simp
  next
    assume "\<forall>fuel. scan_domain_loop (Suc (Suc fuel)) X domain attempts s =
                   scan_domain_loop fuel X domain (attempts + 1) s2"
    then have "scan_domain_loop fuel X domain attempts s =
                 scan_domain_loop f X domain (attempts + 1) s2"
      using fuel by simp
    moreover from Suc.IH [OF Suc.prems(1) ok2 k f] obtain s' where
      "scan_domain_loop f X domain (attempts + 1) s2 = (Returned False, s')"
      "length (invocations (env s')) = length (invocations (env s2)) + k"
      by blast
    ultimately show ?thesis using tr by simp
  qed
qed

text \<open>
  C7 (retry ceiling). With a pool in order (no empty credential, cursor in range, every
  cool-down expiry at most 300 seconds ahead of the clock) and an engine whose every
  attempt yields the rate-limit outcome, \<open>scan_domain\<close> returns \<open>False\<close> after exactly
  \<open>MAX_RETRIES_PER_DOMAIN\<close> = 3 engine invocations, all for this target, with the
  completed set and the completed ledger as they were. Seven units of fuel are enough:
  each attempt takes at most one wait for a credential.
\<close>

theorem retry_ceiling:
  assumes "always_rate_limited X" "pool_ok s" "7 \<le> fuel"
  shows "\<exists>s' used. scan_domain fuel X domain s = (Returned False, s')
           \<and> invocations (env s') = invocations (env s) @ map (Pair domain) used
           \<and> length used = MAX_RETRIES_PER_DOMAIN
           \<and> completed_domains s' = completed_domains s
           \<and> completed_file (env s') = completed_file (env s)"
proof -
  have "0 + 3 = MAX_RETRIES_PER_DOMAIN" by (simp add: MAX_RETRIES_PER_DOMAIN_def)
  moreover have "2 * 3 < fuel" using assms(3) by simp
  ultimately obtain s' where
    sc: "scan_domain_loop fuel X domain 0 s = (Returned False, s')"
    and len: "length (invocations (env s')) = length (invocations (env s)) + 3"
    using retries_exhaust [OF assms(1,2), of 0 3 fuel domain] by blast
  have sd: "scan_domain fuel X domain s = (Returned False, s')"
    using sc by (simp add: scan_domain_def)
  from scan_domain_scans_only [OF sd] obtain new where
    new: "invocations (env s') = invocations (env s) @ new" "\<forall>x\<in>set new. fst x = domain"
    unfolding scans_only_def by blast
  have "map (Pair domain) (map snd new) = new"
    using new(2) by (induction new) auto
  moreover have "length (map snd new) = MAX_RETRIES_PER_DOMAIN"
    using len new(1) by (simp add: MAX_RETRIES_PER_DOMAIN_def)
  moreover have "unchanged_results s s'"
    using scan_domain_loop_failure_frame [OF sc] by simp
  ultimately show ?thesis
    using sd new(1) unfolding unchanged_results_def by metis
qed

theorem retry_ceiling_witness:
  "always_rate_limited (ex_externals ex_engine_403) \<and> pool_ok (ex_scanner [ascii ''tokA''])
   \<and> (\<exists>s'. scan_domain 7 (ex_externals ex_engine_403) (ascii ''acme'') (ex_scanner [ascii ''tokA''])
              = (Returned False, s')
           \<and> length (invocations (env s')) = 3
           \<and> completed_domains s' = {})"
proof -
  have a: "always_rate_limited (ex_externals ex_engine_403)"
    by (simp add: always_rate_limited_def yields_rate_limit_def ex_externals_def
          ex_engine_403_def ascii_def)
  have p: "pool_ok (ex_scanner [ascii ''tokA''])"
    by (simp add: pool_ok_def ex_scanner_def ex_world_def ascii_def)
  from retry_ceiling [OF a p, of 7 "ascii ''acme''"] obtain s' used where
    "scan_domain 7 (ex_externals ex_engine_403) (ascii ''acme'') (ex_scanner [ascii ''tokA''])
       = (Returned False, s')"
    "invocations (env s') = invocations (env (ex_scanner [ascii ''tokA''])) @ map (Pair (ascii ''acme'')) used"
    "length used = MAX_RETRIES_PER_DOMAIN"
    "completed_domains s' = completed_domains (ex_scanner [ascii ''tokA''])"
    by auto
  then have "scan_domain 7 (ex_externals ex_engine_403) (ascii ''acme'') (ex_scanner [ascii ''tokA''])
       = (Returned False, s') \<and> length (invocations (env s')) = 3 \<and> completed_domains s' = {}"
    by (simp add: ex_scanner_def ex_world_def MAX_RETRIES_PER_DOMAIN_def)
  with a p show ?thesis by blast
qed

section \<open>The scan invoker and the cool-down map\<close>

text \<open>
  C2 as stated fails: on a 403 diagnostic the invoker itself writes the cool-down map.
\<close>

theorem invoker_frame_counterexample:
  "rate_limited_pats (snd (run_trufflehog (ex_externals ex_engine_403) (ascii ''acme'')
       (ascii ''tokA'') (ex_scanner [ascii ''tokA''])))
     \<noteq> rate_limited_pats (ex_scanner [ascii ''tokA''])"
proof
  assume "rate_limited_pats (snd (run_trufflehog (ex_externals ex_engine_403) (ascii ''acme'')
       (ascii ''tokA'') (ex_scanner [ascii ''tokA''])))
     = rate_limited_pats (ex_scanner [ascii ''tokA''])"
  then have "rate_limited_pats (snd (run_trufflehog (ex_externals ex_engine_403) (ascii ''acme'')
       (ascii ''tokA'') (ex_scanner [ascii ''tokA'']))) (ascii ''tokA'')
     = rate_limited_pats (ex_scanner [ascii ''tokA'']) (ascii ''tokA'')"
    by simp
  then show False
    by (simp add: run_trufflehog_def ex_externals_def ex_engine_403_def ex_scanner_def
          ex_world_def ascii_def)
qed

text \<open>
  C2, amended. One invocation leaves the credential list, the rotation cursor, the
  completed set, the completed ledger and the result files unchanged. It leaves the
  cool-down map unchanged too, except when the engine exits with a diagnostic that
  contains 403: then the invoker itself sets the expiry of the credential it used to the
  clock reading plus \<open>PAT_COOLDOWN\<close>, and changes no other entry.
\<close>

theorem invoker_frame:
  "(case run_trufflehog X domain pat s of
      (ro, s') \<Rightarrow>
        pats s' = pats s \<and> current_pat_index s' = current_pat_index s
        \<and> completed_domains s' = completed_domains s
        \<and> completed_file (env s') = completed_file (env s)
        \<and> results_files (env s') = results_files (env s)
        \<and> verified_files (env s') = verified_files (env s)
        \<and> rate_limited_pats s' =
            (case fst (engine X (length (invocations (env s))) domain pat) of
               CalledProcessError err \<Rightarrow>
                 if contains (ascii ''403'') (case err of None \<Rightarrow> [] | Some e \<Rightarrow> e)
                 then (rate_limited_pats s)(pat \<mapsto> clock (env s') + PAT_COOLDOWN)
                 else rate_limited_pats s
             | Completed out \<Rightarrow> rate_limited_pats s
             | TimeoutExpired \<Rightarrow> rate_limited_pats s))"
  by (simp add: run_trufflehog_def Let_def split_beta split: proc_result.splits)

theorem invoker_frame_witness:
  "pats (snd (run_trufflehog (ex_externals ex_engine_403) (ascii ''acme'') (ascii ''tokA'')
       (ex_scanner [ascii ''tokA'', ascii ''tokB'']))) = [ascii ''tokA'', ascii ''tokB'']
   \<and> rate_limited_pats (snd (run_trufflehog (ex_externals ex_engine_403) (ascii ''acme'')
       (ascii ''tokA'') (ex_scanner [ascii ''tokA'', ascii ''tokB''])))
     = [ascii ''tokA'' \<mapsto> 301]"
  using invoker_frame [where X = "ex_externals ex_engine_403" and domain = "ascii ''acme''"
      and pat = "ascii ''tokA''" and s = "ex_scanner [ascii ''tokA'', ascii ''tokB'']"]
  by (simp add: split_beta ex_externals_def ex_engine_403_def ex_scanner_def ex_world_def
        ascii_def PAT_COOLDOWN_def run_trufflehog_def)

section \<open>Parsing the engine output\<close>






section \<open>Verified filter and alerts\<close>










section \<open>Message batching\<close>

lemma ex_secret_blocks:
  "secret_block ex_parsing ex_finding_verified = Inr (Some ex_block_small)"
  "secret_block ex_parsing ex_finding_big = Inr (Some ex_block_big)"
  by (simp_all add: secret_block_def github_data_def ex_finding_verified_def ex_finding_big_def
        ex_block_small_def ex_block_big_def ascii_def)

lemma ex_lengths:
  "length (alert_header (ascii ''acme'') @ ex_block_small) \<le> 3000"
  "length ((alert_header (ascii ''acme'') @ ex_block_small) @ ex_block_big) > 3000"
  by (simp_all add: alert_header_def ex_block_small_def ex_block_big_def block_def ascii_def)

lemma ex_alert_loop_small:
  "alert_loop ex_parsing (ascii ''acme'') [ex_finding_verified] =
     (alert_header (ascii ''acme'') @ ex_block_small, 1, [])"
  using ex_lengths(1)
  by (simp add: alert_loop_def alert_step_def ex_secret_blocks)
     (simp add: ex_finding_verified_def)

lemma secret_block_is_dict: "secret_block X secret = Inr r \<Longrightarrow> is_dict secret"
  by (cases secret) (simp_all add: secret_block_def)

text \<open>
  C3 as stated fails: the block that takes the message over 3000 characters is sent as
  the last block of the flushed message; it does not start the next one.
\<close>

theorem flush_order_counterexample:
  "alert_messages ex_parsing (ascii ''acme'') [ex_finding_verified, ex_finding_big] =
     [alert_header (ascii ''acme'') @ ex_block_small @ ex_block_big]
   \<and> alert_messages ex_parsing (ascii ''acme'') [ex_finding_verified, ex_finding_big] \<noteq>
     [alert_header (ascii ''acme'') @ ex_block_small,
      continued_header (ascii ''acme'') @ ex_block_big]"
proof -
  have big: "is_dict ex_finding_big" by (simp add: ex_finding_big_def)
  have "alert_loop ex_parsing (ascii ''acme'') [ex_finding_verified, ex_finding_big] =
          alert_step ex_parsing (ascii ''acme'')
            (alert_loop ex_parsing (ascii ''acme'') [ex_finding_verified]) ex_finding_big"
    by (simp add: alert_loop_def)
  also have "\<dots> = (continued_header (ascii ''acme''), 0,
                    [(alert_header (ascii ''acme'') @ ex_block_small) @ ex_block_big])"
    unfolding ex_alert_loop_small using ex_lengths(2) big
    by (simp add: alert_step_def ex_secret_blocks)
  finally have "alert_messages ex_parsing (ascii ''acme'') [ex_finding_verified, ex_finding_big] =
     [alert_header (ascii ''acme'') @ ex_block_small @ ex_block_big]"
    by (simp add: alert_messages_def)
  then show ?thesis by simp
qed

text \<open>
  C3, amended. When the finding that follows the findings \<open>before\<close> yields a block and
  the current message with that block appended is longer than 3000 characters, the
  message is flushed with that block as its last block, and the new message is the
  continued header alone, with no block counted; otherwise the block is appended and
  nothing is sent.
\<close>

theorem flush_keeps_triggering_block:
  assumes "alert_loop X domain before = (message, count, sent)"
      and "secret_block X secret = Inr (Some b)"
  shows "alert_loop X domain (before @ [secret]) =
           (if length (message @ b) > 3000
            then (continued_header domain, 0, sent @ [message @ b])
            else (message @ b, count + 1, sent))"
proof -
  have "is_dict secret" using assms(2) by (rule secret_block_is_dict)
  moreover have "alert_loop X domain (before @ [secret]) =
                   alert_step X domain (alert_loop X domain before) secret"
    by (simp add: alert_loop_def)
  ultimately show ?thesis
    using assms by (simp add: alert_step_def)
qed

theorem flush_keeps_triggering_block_witness:
  "alert_loop ex_parsing (ascii ''acme'') [ex_finding_verified] =
     (alert_header (ascii ''acme'') @ ex_block_small, 1, [])
   \<and> secret_block ex_parsing ex_finding_big = Inr (Some ex_block_big)
   \<and> alert_loop ex_parsing (ascii ''acme'') ([ex_finding_verified] @ [ex_finding_big]) =
       (continued_header (ascii ''acme''), 0,
        [(alert_header (ascii ''acme'') @ ex_block_small) @ ex_block_big])"
  using flush_keeps_triggering_block [OF ex_alert_loop_small ex_secret_blocks(2)]
    ex_alert_loop_small ex_secret_blocks(2) ex_lengths(2)
  by simp

section \<open>Configuration errors at start-up\<close>






section \<open>The pool invariant is established at start-up and kept by every scan\<close>

text \<open>
  \<open>pool_ok\<close>, the hypothesis of the retry-ceiling theorem, holds of the scanner that
  \<open>__init__\<close> builds and is kept by \<open>scan_domain\<close> and by the loop of \<open>run\<close>,
  whatever the engine answers, as long as its running times are not negative.
\<close>

lemma init_pool_ok:
  assumes "init w = Inr s"
  shows "pool_ok s"
proof -
  from assms obtain ls where
    p: "pats s = stripped_lines ls" "stripped_lines ls \<noteq> []"
    and r: "rate_limited_pats s = Map.empty" "current_pat_index s = 0"
    by (auto simp: init_def load_pats_def Let_def split: option.splits if_splits sum.splits)
  have "[] \<notin> set (pats s)" unfolding p(1) by (simp add: stripped_lines_def)
  moreover have "current_pat_index s < length (pats s)" using p r(2) by simp
  ultimately show ?thesis using p r(1) by (simp add: pool_ok_def)
qed

lemma run_trufflehog_pool:
  assumes "\<forall>n d p. 0 \<le> snd (engine X n d p)" "pool_ok s"
      and "run_trufflehog X domain pat s = (ro, s1)"
  shows "pool_ok s1"
proof -
  obtain r dt where e: "engine X (length (invocations (env s))) domain pat = (r, dt)"
    by (cases "engine X (length (invocations (env s))) domain pat")
  with assms(1) have dt: "0 \<le> dt" by (metis snd_conv)
  have later: "t \<le> clock (env s) + dt + 300" if "rate_limited_pats s p = Some t" for p t
  proof -
    from that assms(2) have "t \<le> clock (env s) + 300"
      by (simp add: pool_ok_def PAT_COOLDOWN_def)
    with dt show ?thesis by linarith
  qed
  show ?thesis
    using assms(2,3) e
    by (auto simp: run_trufflehog_def pool_ok_def PAT_COOLDOWN_def Let_def intro: later
          split: proc_result.splits if_splits)
qed

lemma on_success_pool: "on_success X domain out s = (r, s1) \<Longrightarrow> pool_ok s \<Longrightarrow> pool_ok s1"
  by (auto simp: on_success_def Let_def split_beta mark_domain_completed_def
        send_telegram_alert_def pool_ok_def split: sum.splits if_splits)

lemma scan_domain_pool_ok:
  assumes "\<forall>n d p. 0 \<le> snd (engine X n d p)"
      and "scan_domain fuel X domain s = (r, s')" "pool_ok s"
  shows "pool_ok s'"
proof -
  have "pool_ok s \<longrightarrow> pool_ok s'"
  proof (rule scan_domain_loop_rel [where R = "\<lambda>a b. pool_ok a \<longrightarrow> pool_ok b" and G = "\<lambda>q. True"
          and X = X and domain = domain and fuel = fuel and attempts = 0 and r = r])
    show "pool_ok a \<longrightarrow> pool_ok a" for a by simp
    show "pool_ok a \<longrightarrow> pool_ok b \<Longrightarrow> pool_ok b \<longrightarrow> pool_ok c \<Longrightarrow> pool_ok a \<longrightarrow> pool_ok c" for a b c
      by simp
    show "get_available_pat a = (q, b) \<Longrightarrow> pool_ok a \<longrightarrow> pool_ok b" for a q b
      using get_available_pat_pool(1) by blast
    show "0 \<le> d \<Longrightarrow> pool_ok a \<longrightarrow> pool_ok (sleep d a)" for a d
      by (simp add: pool_ok_sleep)
    show "run_trufflehog X domain pat a = (q, b) \<Longrightarrow> pool_ok a \<longrightarrow> pool_ok b" for a pat q b
      using run_trufflehog_pool [OF assms(1)] by blast
    show "on_success X domain out a = (q, b) \<Longrightarrow> True \<Longrightarrow> pool_ok a \<longrightarrow> pool_ok b" for a out q b
      using on_success_pool by blast
    show "scan_domain_loop fuel X domain 0 s = (r, s')"
      using assms(2) by (simp add: scan_domain_def)
    show True ..
  qed
  with assms(3) show ?thesis by simp
qed

lemma run_loop_pool_ok:
  "\<forall>n d p. 0 \<le> snd (engine X n d p) \<Longrightarrow> run_loop fuel X ds s = (r, s') \<Longrightarrow> pool_ok s \<Longrightarrow>
     pool_ok s'"
proof (induction ds arbitrary: s)
  case Nil
  then show ?case by simp
next
  case (Cons domain rest)
  show ?case
  proof (cases "domain \<in> completed_domains s")
    case True
    with Cons.prems(2) have "run_loop fuel X rest s = (r, s')" by simp
    from Cons.IH [OF Cons.prems(1) this Cons.prems(3)] show ?thesis .
  next
    case False
    obtain q s1 where sc: "scan_domain fuel X domain s = (q, s1)"
      by (cases "scan_domain fuel X domain s")
    note ok1 = scan_domain_pool_ok [OF Cons.prems(1) sc Cons.prems(3)]
    show ?thesis
    proof (cases q)
      case (Returned b)
      with Cons.prems(2) False sc have "run_loop fuel X rest (sleep 5 s1) = (r, s')" by simp
      moreover have "pool_ok (sleep 5 s1)" using ok1 by (simp add: pool_ok_sleep)
      ultimately show ?thesis using Cons.IH [OF Cons.prems(1)] by blast
    next
      case (Raised e)
      with Cons.prems(2) False sc ok1 show ?thesis by auto
    next
      case OutOfFuel
      with Cons.prems(2) False sc ok1 show ?thesis by auto
    qed
  qed
qed

end
